theory Spec2Isabelle
  imports Complex_Main "HOL-Library.Multiset" "HOL-Library.Log_Nat"
begin

section \<open>Watched intervals\<close>

text \<open>
  An interval is the JavaScript object \<open>{start, end}\<close> of the progress tracker: an
  inclusive range of whole seconds. The field \<open>end\<close> is written \<open>endp\<close>, since
  \<open>end\<close> is reserved. Seconds are modelled as unbounded integers; nothing in the code
  restricts them to \<open>start \<le> end\<close>.
\<close>

record interval =
  start :: int
  endp :: int

subsection \<open>mergeIntervals\<close>

text \<open>
  The \<open>for\<close> loop of \<open>mergeIntervals\<close>, with the loop index \<open>i\<close> and the array
  \<open>result\<close> as arguments. \<open>lastMerged.end = Math.max(...)\<close> overwrites the last element
  of \<open>result\<close>; \<open>result.push(current)\<close> appends. \<open>result\<close> starts with one element
  and never shrinks, so \<open>result[result.length - 1]\<close> is always defined. Intervals are
  values here: the source updates \<open>end\<close> of an object of the input in place, which the
  caller's array shares; the returned array holds the values modelled.
\<close>

function mergeLoop :: "interval list \<Rightarrow> nat \<Rightarrow> interval list \<Rightarrow> interval list" where
  "mergeLoop sortedIntervals i result =
     (if i < length sortedIntervals then
        (let current = sortedIntervals ! i;
             lastMerged = last result
         in if start current \<le> endp lastMerged + 1
            then mergeLoop sortedIntervals (i + 1)
                   (butlast result @ [lastMerged\<lparr>endp := max (endp lastMerged) (endp current)\<rparr>])
            else mergeLoop sortedIntervals (i + 1) (result @ [current]))
      else result)"
  by pat_completeness auto
termination
  by (relation "measure (\<lambda>(s, i, r). length s - i)") auto

declare mergeLoop.simps [simp del]

text \<open>
  \<open>[...intervals].sort((a, b) => a.start - b.start)\<close> is a stable sort of a copy by the
  key \<open>start\<close>: \<^const>\<open>sort_key\<close>. Intervals with the same \<open>start\<close> keep their input
  order. The early return hands back the input list itself.
\<close>

definition mergeIntervals :: "interval list \<Rightarrow> interval list" where
  "mergeIntervals intervals =
     (if length intervals \<le> 1 then intervals
      else (let sortedIntervals = sort_key start intervals;
                result = [sortedIntervals ! 0]
            in mergeLoop sortedIntervals 1 result))"

text \<open>
  The algorithm in the words of the specification: sort by \<open>start\<close>, start the result
  with the first interval, then treat each further interval \<open>cur\<close> with \<open>spec_step\<close>.
\<close>

definition spec_step :: "interval list \<Rightarrow> interval \<Rightarrow> interval list" where
  "spec_step result cur =
     (if start cur \<le> endp (last result) + 1
      then butlast result @ [(last result)\<lparr>endp := max (endp (last result)) (endp cur)\<rparr>]
      else result @ [cur])"

definition spec_merge :: "interval list \<Rightarrow> interval list" where
  "spec_merge intervals =
     (case sort_key start intervals of
        [] \<Rightarrow> []
      | first # rest \<Rightarrow> foldl spec_step [first] rest)"

subsection \<open>The loop as a recursion on the open interval\<close>

text \<open>
  \<open>absorb l cs\<close> runs the loop body over \<open>cs\<close> with \<open>l\<close> the last interval of the
  result so far; \<open>coalesce\<close> starts it on a list.
\<close>

fun absorb :: "interval \<Rightarrow> interval list \<Rightarrow> interval list" where
  "absorb l [] = [l]"
| "absorb l (c # cs) =
     (if start c \<le> endp l + 1
      then absorb (l\<lparr>endp := max (endp l) (endp c)\<rparr>) cs
      else l # absorb c cs)"

fun coalesce :: "interval list \<Rightarrow> interval list" where
  "coalesce [] = []"
| "coalesce (x # xs) = absorb x xs"

text \<open>
  \<open>gapped\<close> says that consecutive intervals are separated by more than one second.
\<close>

fun gapped :: "interval list \<Rightarrow> bool" where
  "gapped (x # y # r) = (endp x + 1 < start y \<and> gapped (y # r))"
| "gapped _ = True"

subsection \<open>Progress percentage\<close>

text \<open>
  JavaScript numbers are IEEE 754 doubles. Seconds are whole numbers (below \<open>2^53\<close>), so
  sums and differences are exact. A finite double is kept as the rational it denotes;
  the sign of zero is not kept. Each division and multiplication gives the exact result
  rounded to the nearest double, ties to the even significand: \<open>round_double\<close>.
\<close>

datatype js_number = Finite rat | PosInfinity | NegInfinity | NaN

text \<open>
  \<open>ilog2 a\<close> is the binary exponent of a positive rational: \<open>2^e \<le> a < 2^(e+1)\<close>.
\<close>

definition ilog2 :: "rat \<Rightarrow> int" where
  "ilog2 a =
     (let (p, q) = quotient_of a;
          d = bitlen p - bitlen q
      in if 2 powi d \<le> a then d else d - 1)"

definition round_half_even :: "rat \<Rightarrow> int" where
  "round_half_even m =
     (let f = \<lfloor>m\<rfloor>; d = m - of_int f
      in if d < 1 / 2 then f else if 1 / 2 < d then f + 1 else if even f then f else f + 1)"

text \<open>
  A double has a significand of 53 bits, so in the binade of exponent \<open>e\<close> the doubles
  are the multiples of \<open>2^(e - 52)\<close>; below \<open>2^(- 1022)\<close> (subnormal numbers) the spacing
  stays \<open>2^(- 1074)\<close>. \<open>nearest_double a\<close> is the multiple nearest to a positive \<open>a\<close>.
\<close>

definition nearest_double :: "rat \<Rightarrow> rat" where
  "nearest_double a =
     (let e = max (ilog2 a) (- 1022);
          ulp = 2 powi (e - 52)
      in of_int (round_half_even (a / ulp)) * ulp)"

text \<open>
  A rounded magnitude of \<open>2^1024\<close> or more (binary exponent at least 1024) overflows to
  an infinity.
\<close>

definition round_double :: "rat \<Rightarrow> js_number" where
  "round_double q =
     (if q = 0 then Finite 0
      else
        (let r = nearest_double \<bar>q\<bar>
         in if 1024 \<le> ilog2 r then (if 0 < q then PosInfinity else NegInfinity)
            else Finite (if 0 < q then r else - r)))"

definition js_negate :: "js_number \<Rightarrow> js_number" where
  "js_negate x =
     (case x of Finite p \<Rightarrow> Finite (- p) | PosInfinity \<Rightarrow> NegInfinity
      | NegInfinity \<Rightarrow> PosInfinity | NaN \<Rightarrow> NaN)"

text \<open>
  \<open>a / b\<close> on whole numbers and \<open>x * 100\<close>. A division by zero gives one of the three
  non-finite values.
\<close>

definition js_divide :: "int \<Rightarrow> int \<Rightarrow> js_number" where
  "js_divide a b =
     (if b = 0 then (if a = 0 then NaN else if 0 < a then PosInfinity else NegInfinity)
      else round_double (of_int a / of_int b))"

definition js_times_100 :: "js_number \<Rightarrow> js_number" where
  "js_times_100 x = (case x of Finite q \<Rightarrow> round_double (q * 100) | other \<Rightarrow> other)"

definition calculateUniqueWatchedTime :: "interval list \<Rightarrow> int" where
  "calculateUniqueWatchedTime intervals =
     foldl (\<lambda>total interval. total + (endp interval - start interval + 1)) 0 intervals"

definition calculateProgressPercentage :: "interval list \<Rightarrow> int \<Rightarrow> js_number" where
  "calculateProgressPercentage intervals duration =
     (let totalWatchedSeconds = calculateUniqueWatchedTime intervals
      in js_times_100 (js_divide totalWatchedSeconds duration))"

text \<open>
  The percentage in the words of the specification: zero for a duration that is not
  positive, otherwise the quotient clamped to \<open>[0, 100]\<close>.
\<close>

definition spec_uniqueSeconds :: "interval list \<Rightarrow> int" where
  "spec_uniqueSeconds intervals = (\<Sum>i\<leftarrow>intervals. endp i - start i + 1)"

definition spec_percentage :: "interval list \<Rightarrow> int \<Rightarrow> rat" where
  "spec_percentage intervals duration =
     (if duration \<le> 0 then 0
      else max 0 (min 100 (of_int (spec_uniqueSeconds intervals) / of_int duration * 100)))"

subsection \<open>Resuming at the last position\<close>

text \<open>
  The state the resume effect of the \<open>VideoPlayer\<close> component reads: whether the player
  instance has been set, the \<open>isReady\<close> flag, \<open>lastPosition\<close> as delivered by the
  progress hook, the \<open>currentTime\<close> state and the \<open>duration\<close> of the \<open>video\<close> prop.
\<close>

record player_view =
  player :: bool
  isReady :: bool
  lastPosition :: int
  currentTime :: int
  duration :: int

datatype player_call = SeekTo int

text \<open>
  The effect schedules a timer (delay in milliseconds, captured position) when its guard
  holds.
\<close>

definition resumeSeekEffect :: "player_view \<Rightarrow> (nat \<times> int) option" where
  "resumeSeekEffect v =
     (if player v \<and> isReady v \<and> lastPosition v > 0 then Some (1000, lastPosition v)
      else None)"

text \<open>
  The timer's callback: \<open>player.seekTo\<close> then \<open>setCurrentTime\<close>, inside \<open>try\<close>; when
  \<open>seekTo\<close> throws, the \<open>catch\<close> only logs.
\<close>

definition resumeSeekTimer :: "bool \<Rightarrow> int \<Rightarrow> player_view \<Rightarrow> player_call list \<times> player_view" where
  "resumeSeekTimer seekThrows pos v =
     (if seekThrows then ([SeekTo pos], v) else ([SeekTo pos], v\<lparr>currentTime := pos\<rparr>))"

text \<open>The effect followed by its timer, when the timer is not cleared before it fires.\<close>

definition resumeOnLoad :: "bool \<Rightarrow> player_view \<Rightarrow> player_call list \<times> player_view" where
  "resumeOnLoad seekThrows v =
     (case resumeSeekEffect v of
        None \<Rightarrow> ([], v)
      | Some (delay, pos) \<Rightarrow> resumeSeekTimer seekThrows pos v)"

text \<open>The resume position in the words of the specification.\<close>

definition spec_resume_target :: "int \<Rightarrow> int \<Rightarrow> int" where
  "spec_resume_target pos dur = (if 0 \<le> pos \<and> pos < dur then pos else 0)"

subsection \<open>Progress operations of the video context\<close>

text \<open>
  The state held by \<open>VideoProvider\<close>. \<open>'v\<close> is a video as the server sends it, \<open>'p\<close> a
  progress record as the server sends it; \<open>None\<close> is \<open>null\<close>.
\<close>

record ('v, 'p) provider_state =
  videos :: "'v list"
  currentVideo :: "'v option"
  progress :: "'p option"
  loading :: bool
  error :: "string option"

text \<open>
  An HTTP request issued through axios, and what comes back: the promise is rejected, or
  it resolves to a response whose \<open>data\<close> is absent (\<open>None\<close>) or is a body. In a body
  \<open>success\<close> is the truthiness of the field \<open>success\<close>, and \<open>data\<close> is \<open>Some d\<close> for a
  truthy field \<open>data\<close> with value \<open>d\<close>.
\<close>

datatype 'd request = GET string | POST string 'd | DELETE string

record 'p body =
  success :: bool
  data :: "'p option"

datatype 'p axios_result = Rejected | Resolved "'p body option"

datatype js_exception = AxiosError | TypeError

text \<open>
  What a call does: the value it returns (\<open>Inl\<close> when it throws), the state it leaves and
  the requests it issued, in order.
\<close>

record ('v, 'p, 'd) outcome =
  returned :: "js_exception + 'p option"
  state_after :: "('v, 'p) provider_state"
  requests :: "'d request list"

definition progress_url :: "string \<Rightarrow> string" where
  "progress_url videoId = ''https://tutedude-production.up.railway.app/api/progress/'' @ videoId"

text \<open>
  In each of the three operations the \<open>try\<close> block is the value \<open>attempt\<close>: \<open>Inl\<close> with
  the exception and the state at the throw (a rejected request, or reading \<open>success\<close> of
  an absent \<open>res.data\<close>), \<open>Inr\<close> with the returned value and the state. The \<open>catch\<close>
  block returns \<open>null\<close>.
\<close>

definition getVideoProgress ::
  "bool \<Rightarrow> ('d request \<Rightarrow> 'p axios_result) \<Rightarrow> string \<Rightarrow> ('v, 'p) provider_state \<Rightarrow> ('v, 'p, 'd) outcome" where
  "getVideoProgress isAuthenticated axios videoId st =
     (if \<not> isAuthenticated then \<lparr>returned = Inr None, state_after = st, requests = []\<rparr>
      else
        (let req = GET (progress_url videoId);
             attempt =
               (case axios req of
                  Rejected \<Rightarrow> Inl (AxiosError, st)
                | Resolved None \<Rightarrow> Inl (TypeError, st)
                | Resolved (Some res_data) \<Rightarrow>
                    (if success res_data \<and> data res_data \<noteq> None
                     then Inr (data res_data, st\<lparr>progress := data res_data, error := None\<rparr>)
                     else Inr (None, st)))
         in case attempt of
              Inl (err, st') \<Rightarrow> \<lparr>returned = Inr None, state_after = st', requests = [req]\<rparr>
            | Inr (v, st') \<Rightarrow> \<lparr>returned = Inr v, state_after = st', requests = [req]\<rparr>))"

definition updateProgress ::
  "bool \<Rightarrow> ('d request \<Rightarrow> 'p axios_result) \<Rightarrow> string \<Rightarrow> 'd \<Rightarrow> ('v, 'p) provider_state \<Rightarrow> ('v, 'p, 'd) outcome" where
  "updateProgress isAuthenticated axios videoId payload st =
     (if \<not> isAuthenticated then \<lparr>returned = Inr None, state_after = st, requests = []\<rparr>
      else
        (let req = POST (progress_url videoId) payload;
             attempt =
               (case axios req of
                  Rejected \<Rightarrow> Inl (AxiosError, st)
                | Resolved None \<Rightarrow> Inl (TypeError, st)
                | Resolved (Some res_data) \<Rightarrow>
                    (if success res_data \<and> data res_data \<noteq> None
                     then Inr (data res_data, st\<lparr>progress := data res_data, error := None\<rparr>)
                     else Inr (None, st)))
         in case attempt of
              Inl (err, st') \<Rightarrow> \<lparr>returned = Inr None, state_after = st', requests = [req]\<rparr>
            | Inr (v, st') \<Rightarrow> \<lparr>returned = Inr v, state_after = st', requests = [req]\<rparr>))"

definition resetProgress ::
  "bool \<Rightarrow> ('d request \<Rightarrow> 'p axios_result) \<Rightarrow> string \<Rightarrow> ('v, 'p) provider_state \<Rightarrow> ('v, 'p, 'd) outcome" where
  "resetProgress isAuthenticated axios videoId st =
     (if \<not> isAuthenticated then \<lparr>returned = Inr None, state_after = st, requests = []\<rparr>
      else
        (let req = DELETE (progress_url videoId);
             attempt =
               (case axios req of
                  Rejected \<Rightarrow> Inl (AxiosError, st)
                | Resolved None \<Rightarrow> Inl (TypeError, st)
                | Resolved (Some res_data) \<Rightarrow>
                    (if success res_data \<and> data res_data \<noteq> None
                     then Inr (data res_data, st\<lparr>progress := data res_data, error := None\<rparr>)
                     else Inr (None, st)))
         in case attempt of
              Inl (err, st') \<Rightarrow> \<lparr>returned = Inr None, state_after = st', requests = [req]\<rparr>
            | Inr (v, st') \<Rightarrow> \<lparr>returned = Inr v, state_after = st', requests = [req]\<rparr>))"

text \<open>
  The data of a successful response: the body is present, \<open>success\<close> is truthy and
  \<open>data\<close> is truthy.
\<close>

definition accepted :: "'p axios_result \<Rightarrow> 'p option" where
  "accepted res =
     (case res of
        Rejected \<Rightarrow> None
      | Resolved None \<Rightarrow> None
      | Resolved (Some res_data) \<Rightarrow> (if success res_data then data res_data else None))"

text \<open>
  What an authenticated progress operation amounts to, given its request and the result
  of that request.
\<close>

definition settled :: "'d request \<Rightarrow> 'p axios_result \<Rightarrow> ('v, 'p) provider_state \<Rightarrow> ('v, 'p, 'd) outcome" where
  "settled req res st =
     \<lparr>returned = Inr (accepted res),
      state_after = (case accepted res of
                       None \<Rightarrow> st
                     | Some d \<Rightarrow> st\<lparr>progress := Some d, error := None\<rparr>),
      requests = [req]\<rparr>"

section \<open>Properties of the merge\<close>

lemma mergeLoop_absorb:
  "i \<le> length s \<Longrightarrow> mergeLoop s i (rs @ [l]) = rs @ absorb l (drop i s)"
proof (induction s i "rs @ [l]" arbitrary: rs l rule: mergeLoop.induct)
  case (1 s i)
  show ?case
  proof (cases "i < length s")
    case False
    with 1(3) show ?thesis by (subst mergeLoop.simps) simp
  next
    case True
    then have d: "drop i s = s ! i # drop (Suc i) s"
      by (simp add: Cons_nth_drop_Suc)
    show ?thesis
    proof (cases "start (s ! i) \<le> endp l + 1")
      case True
      with \<open>i < length s\<close> 1(1) [of "s ! i" l rs "l\<lparr>endp := max (endp l) (endp (s ! i))\<rparr>"]
      show ?thesis
        by (simp add: mergeLoop.simps [of s i] d)
    next
      case False
      with \<open>i < length s\<close> 1(2) [of "s ! i" l "rs @ [l]" "s ! i"]
      show ?thesis
        by (simp add: mergeLoop.simps [of s i] d)
    qed
  qed
qed

lemma mergeIntervals_coalesce: "mergeIntervals xs = coalesce (sort_key start xs)"
proof (cases "length xs \<le> 1")
  case True
  then show ?thesis
    by (cases xs) (simp_all add: mergeIntervals_def)
next
  case False
  have "length (sort_key start xs) = length xs" by simp
  with False obtain y ys where s: "sort_key start xs = y # ys"
    by (cases "sort_key start xs") (simp_all del: length_sort)
  from False have "1 \<le> length (sort_key start xs)" by simp
  from mergeLoop_absorb [OF this, of "[]" y] False s show ?thesis
    by (simp add: mergeIntervals_def)
qed

lemma absorb_not_Nil [simp]: "absorb l cs \<noteq> []"
  by (induction cs arbitrary: l) auto

lemma start_hd_absorb [simp]: "start (hd (absorb l cs)) = start l"
  by (induction cs arbitrary: l) auto

lemma absorb_Cons_absorb: "absorb x (absorb l cs) = absorb x (l # cs)"
proof (induction cs arbitrary: x l)
  case Nil
  show ?case by simp
next
  case (Cons c cs)
  show ?case
  proof (cases "start c \<le> endp l + 1")
    case True
    then show ?thesis
      using Cons [of x "l\<lparr>endp := max (endp l) (endp c)\<rparr>"]
      by (auto simp: max.assoc)
  next
    case False
    then show ?thesis
      using Cons [of l c] Cons [of "x\<lparr>endp := max (endp x) (endp l)\<rparr>" c]
      by auto
  qed
qed

lemma absorb_coalesce: "absorb x (coalesce S) = absorb x S"
  by (cases S) (simp_all add: absorb_Cons_absorb)

lemma gapped_absorb: "gapped (absorb l cs)"
proof (induction cs arbitrary: l)
  case Nil show ?case by simp
next
  case (Cons c cs)
  have "gapped (l # absorb c cs)" if "\<not> start c \<le> endp l + 1"
    using that Cons [of c] start_hd_absorb [of c cs] absorb_not_Nil [of c cs]
    by (cases "absorb c cs") auto
  with Cons show ?case by simp
qed

lemma absorb_gapped: "gapped (l # cs) \<Longrightarrow> absorb l cs = l # cs"
  by (induction cs arbitrary: l) auto

lemma coalesce_gapped: "gapped S \<Longrightarrow> coalesce S = S"
  by (cases S) (simp_all add: absorb_gapped)

lemma gapped_coalesce: "gapped (coalesce S)"
  by (cases S) (simp_all add: gapped_absorb)

lemma coalesce_idem: "coalesce (coalesce S) = coalesce S"
  by (simp add: coalesce_gapped gapped_coalesce)

lemma starts_absorb: "start ` set (absorb l cs) \<subseteq> start ` set (l # cs)"
proof (induction cs arbitrary: l)
  case Nil show ?case by simp
next
  case (Cons c cs)
  show ?case
  proof (cases "start c \<le> endp l + 1")
    case True
    with Cons [of "l\<lparr>endp := max (endp l) (endp c)\<rparr>"] show ?thesis by auto
  next
    case False
    with Cons [of c] show ?thesis by auto
  qed
qed

lemma sorted_absorb:
  "sorted (map start (l # cs)) \<Longrightarrow> sorted (map start (absorb l cs))"
proof (induction cs arbitrary: l)
  case Nil show ?case by simp
next
  case (Cons c cs)
  show ?case
  proof (cases "start c \<le> endp l + 1")
    case True
    with Cons.prems Cons.IH [of "l\<lparr>endp := max (endp l) (endp c)\<rparr>"] show ?thesis by simp
  next
    case False
    have "start l \<le> start y" if "y \<in> set (absorb c cs)" for y
    proof -
      from that starts_absorb [of c cs] have "start y \<in> start ` set (c # cs)" by blast
      with Cons.prems show ?thesis by auto
    qed
    with False Cons.prems Cons.IH [of c] show ?thesis by auto
  qed
qed

lemma sorted_coalesce: "sorted (map start S) \<Longrightarrow> sorted (map start (coalesce S))"
  by (cases S) (simp_all only: coalesce.simps sorted_absorb list.map sorted0)

lemma insort_key_least: "\<forall>y\<in>set cs. f a \<le> f y \<Longrightarrow> insort_key f a cs = a # cs"
  by (cases cs) auto

lemma coalesce_insort_absorb:
  "sorted (map start (l # cs)) \<Longrightarrow>
   coalesce (insort_key start a (l # cs)) = coalesce (insort_key start a (absorb l cs))"
proof (induction cs arbitrary: l)
  case Nil
  show ?case by simp
next
  case (Cons c cs)
  obtain h t where ht: "absorb l (c # cs) = h # t" and h: "start h = start l"
    using start_hd_absorb [of l "c # cs"] absorb_not_Nil [of l "c # cs"]
    by (cases "absorb l (c # cs)") auto
  show ?case
  proof (cases "start a \<le> start l")
    case True
    with ht h show ?thesis
      using absorb_Cons_absorb [of a l "c # cs"] by simp
  next
    case al: False
    show ?thesis
    proof (cases "start c \<le> endp l + 1")
      case False
      from Cons.prems have "sorted (map start (c # cs))" by simp
      from Cons.IH [OF this]
      have "absorb l (coalesce (insort_key start a (c # cs)))
          = absorb l (coalesce (insort_key start a (absorb c cs)))" by simp
      then have "absorb l (insort_key start a (c # cs)) = absorb l (insort_key start a (absorb c cs))"
        by (simp only: absorb_coalesce)
      with al False show ?thesis by simp
    next
      case True
      let ?l = "l\<lparr>endp := max (endp l) (endp c)\<rparr>"
      from Cons.prems have "sorted (map start (?l # cs))" by simp
      from Cons.IH [OF this] al True
      have rhs: "coalesce (insort_key start a (absorb l (c # cs))) = absorb ?l (insort_key start a cs)"
        by simp
      have "absorb l (insort_key start a (c # cs)) = absorb ?l (insort_key start a cs)"
      proof (cases "start a \<le> start c")
        case False
        with True show ?thesis by simp
      next
        case ac: True
        with Cons.prems have "\<forall>y\<in>set cs. start a \<le> start y" by auto
        then have "insort_key start a cs = a # cs" by (rule insort_key_least)
        moreover from ac True have a1: "start a \<le> endp l + 1" by simp
        moreover from True have "start c \<le> max (endp l) (endp a) + 1" by simp
        moreover from a1 have "start a \<le> max (endp l) (endp c) + 1" by simp
        moreover have "max (max (endp l) (endp a)) (endp c) = max (max (endp l) (endp c)) (endp a)"
          by simp
        ultimately show ?thesis by (simp del: max.absorb1 max.absorb2 max.absorb3 max.absorb4)
      qed
      with al rhs show ?thesis by simp
    qed
  qed
qed

lemma coalesce_insort_coalesce:
  "sorted (map start S) \<Longrightarrow>
   coalesce (insort_key start a (coalesce S)) = coalesce (insort_key start a S)"
  by (cases S) (simp_all only: coalesce.simps coalesce_insort_absorb)

lemma sorted_foldr_insort:
  "sorted (map start S) \<Longrightarrow> sorted (map start (foldr (insort_key start) A S))"
  by (induction A) (simp_all add: sorted_insort_key)

lemma coalesce_foldr_insort:
  "sorted (map start S) \<Longrightarrow>
   coalesce (foldr (insort_key start) A (coalesce S)) = coalesce (foldr (insort_key start) A S)"
proof (induction A)
  case Nil
  show ?case by (simp add: coalesce_idem)
next
  case (Cons a A)
  let ?U = "foldr (insort_key start) A (coalesce S)" and ?V = "foldr (insort_key start) A S"
  from Cons.prems have sU: "sorted (map start ?U)" and sV: "sorted (map start ?V)"
    by (simp_all add: sorted_foldr_insort sorted_coalesce)
  have "coalesce (insort_key start a ?U) = coalesce (insort_key start a (coalesce ?U))"
    using coalesce_insort_coalesce [OF sU] by simp
  also have "\<dots> = coalesce (insort_key start a (coalesce ?V))"
    using Cons by simp
  also have "\<dots> = coalesce (insort_key start a ?V)"
    using coalesce_insort_coalesce [OF sV] by simp
  finally show ?case by simp
qed

lemma sort_key_append_foldr:
  "sort_key f (A @ B) = foldr (insort_key f) A (sort_key f B)"
  by (simp add: sort_key_def)

lemma mergeIntervals_sorted: "sorted (map start (mergeIntervals X))"
  by (simp add: mergeIntervals_coalesce sorted_coalesce)

lemma mergeIntervals_append_merged:
  "mergeIntervals (A @ mergeIntervals B) = mergeIntervals (A @ B)"
proof -
  let ?S = "sort_key start B"
  have s: "sorted (map start ?S)" by simp
  have "sort_key start (coalesce ?S) = coalesce ?S"
    using sorted_coalesce [OF s] by (rule sort_key_id_if_sorted)
  then show ?thesis
    using coalesce_foldr_insort [OF s, of A]
    by (simp add: mergeIntervals_coalesce sort_key_append_foldr)
qed


lemma absorb_swap:
  assumes "start a = start b" "start a \<le> endp a + 1" "start b \<le> endp b + 1"
  shows "absorb x (a # b # T) = absorb x (b # a # T)"
proof -
  have e: "a\<lparr>endp := m\<rparr> = b\<lparr>endp := m\<rparr>" for m
    using assms(1) by (cases a, cases b) simp
  have m: "max (max (endp x) (endp a)) (endp b) = max (max (endp x) (endp b)) (endp a)"
    by simp
  show ?thesis
  proof (cases "start a \<le> endp x + 1")
    case True
    with assms have "start b \<le> endp x + 1" "start b \<le> max (endp x) (endp a) + 1"
      "start a \<le> max (endp x) (endp b) + 1" by simp_all
    with True m show ?thesis by (simp del: max.absorb1 max.absorb2 max.absorb3 max.absorb4)
  next
    case False
    with assms show ?thesis by (simp add: max.commute e)
  qed
qed

lemma absorb_insort_comm:
  assumes "start a = start b" "start a \<le> endp a + 1" "start b \<le> endp b + 1"
  shows "absorb x (insort_key start a (insort_key start b S))
       = absorb x (insort_key start b (insort_key start a S))"
proof (induction S arbitrary: x)
  case Nil
  from assms show ?case using absorb_swap [OF assms, of x "[]"] by simp
next
  case (Cons y S)
  show ?case
  proof (cases "start a \<le> start y")
    case True
    with assms show ?thesis using absorb_swap [OF assms, of x "y # S"] by simp
  next
    case False
    with assms Cons show ?thesis by simp
  qed
qed

lemma coalesce_insort_comm:
  assumes "start a \<le> endp a + 1" "start b \<le> endp b + 1"
  shows "coalesce (insort_key start a (insort_key start b S))
       = coalesce (insort_key start b (insort_key start a S))"
proof (cases "start a = start b")
  case False
  then show ?thesis by (simp add: insort_key_left_comm)
next
  case True
  note h = True assms
  have e: "a\<lparr>endp := m\<rparr> = b\<lparr>endp := m\<rparr>" for m
    using True by (cases a, cases b) simp
  show ?thesis
  proof (cases S)
    case Nil
    with h show ?thesis by (simp add: max.commute e)
  next
    case (Cons y S')
    show ?thesis
    proof (cases "start a \<le> start y")
      case True
      with h Cons show ?thesis by (simp add: max.commute e)
    next
      case False
      with h Cons absorb_insort_comm [OF h, of y S'] show ?thesis by simp
    qed
  qed
qed

lemma mergeIntervals_swap:
  "start a \<le> endp a + 1 \<Longrightarrow> start b \<le> endp b + 1 \<Longrightarrow>
   mergeIntervals (a # b # C) = mergeIntervals (b # a # C)"
  by (simp add: mergeIntervals_coalesce coalesce_insort_comm)

lemma mergeIntervals_Cons_merged:
  "mergeIntervals (x # mergeIntervals X) = mergeIntervals (x # X)"
  using mergeIntervals_append_merged [of "[x]" X] by simp

lemma mergeIntervals_fold:
  "mergeIntervals X = fold (\<lambda>x C. mergeIntervals (x # C)) (rev X) []"
proof (induction X)
  case Nil
  show ?case by (simp add: mergeIntervals_def)
next
  case (Cons x X)
  then show ?case by (simp add: mergeIntervals_Cons_merged [of x X, symmetric])
qed

lemma mergeIntervals_mset:
  assumes ok: "\<forall>i\<in>set X. start i \<le> endp i + 1" and p: "mset X = mset Y"
  shows "mergeIntervals X = mergeIntervals Y"
proof -
  let ?f = "\<lambda>x C. mergeIntervals (x # C)"
  have comm: "?f a \<circ> ?f b = ?f b \<circ> ?f a" if "a \<in> set (rev X)" "b \<in> set (rev X)" for a b
  proof
    fix C
    from that ok have "start a \<le> endp a + 1" "start b \<le> endp b + 1" by auto
    then have "mergeIntervals (a # b # C) = mergeIntervals (b # a # C)"
      by (rule mergeIntervals_swap)
    then show "(?f a \<circ> ?f b) C = (?f b \<circ> ?f a) C"
      by (simp add: mergeIntervals_Cons_merged)
  qed
  from p have "mset (rev X) = mset (rev Y)" by simp
  with comm have "fold ?f (rev X) = fold ?f (rev Y)" by (rule fold_multiset_equiv)
  then show ?thesis by (simp add: mergeIntervals_fold [of X] mergeIntervals_fold [of Y])
qed

lemma absorb_valid:
  "start l \<le> endp l \<Longrightarrow> \<forall>i\<in>set cs. start i \<le> endp i \<Longrightarrow> \<forall>i\<in>set (absorb l cs). start i \<le> endp i"
proof (induction cs arbitrary: l)
  case Nil
  then show ?case by simp
next
  case (Cons c cs)
  show ?case
  proof (cases "start c \<le> endp l + 1")
    case True
    with Cons.prems Cons.IH [of "l\<lparr>endp := max (endp l) (endp c)\<rparr>"] show ?thesis by simp
  next
    case False
    with Cons.prems Cons.IH [of c] show ?thesis by simp
  qed
qed

lemma gapped_nth: "gapped ys \<Longrightarrow> Suc k < length ys \<Longrightarrow> endp (ys ! k) + 1 < start (ys ! Suc k)"
proof (induction ys arbitrary: k rule: gapped.induct)
  case (1 x y r)
  then show ?case by (cases k) auto
qed simp_all

lemma foldl_spec_step: "foldl spec_step (rs @ [l]) cs = rs @ absorb l cs"
proof (induction cs arbitrary: rs l)
  case Nil
  show ?case by simp
next
  case (Cons c cs)
  show ?case
  proof (cases "start c \<le> endp l + 1")
    case True
    with Cons [of rs "l\<lparr>endp := max (endp l) (endp c)\<rparr>"] show ?thesis
      by (simp add: spec_step_def)
  next
    case False
    with Cons [of "rs @ [l]" c] show ?thesis
      by (simp add: spec_step_def)
  qed
qed

lemma spec_merge_coalesce: "spec_merge xs = coalesce (sort_key start xs)"
proof (cases "sort_key start xs")
  case Nil
  then show ?thesis by (simp add: spec_merge_def)
next
  case (Cons y ys)
  with foldl_spec_step [of "[]" y ys] show ?thesis by (simp add: spec_merge_def)
qed

lemma coalesce_valid:
  "\<forall>i\<in>set S. start i \<le> endp i \<Longrightarrow> \<forall>i\<in>set (coalesce S). start i \<le> endp i"
  using absorb_valid by (cases S) auto

section \<open>The merge algorithm\<close>

text \<open>
  C1. For every interval list, \<open>mergeIntervals\<close> sorts the input by \<open>start\<close> ascending
  and then, for each subsequent interval \<open>cur\<close>, extends the last result interval to
  \<open>max(last.end, cur.end)\<close> when \<open>cur.start \<le> last.end + 1\<close> and appends \<open>cur\<close>
  otherwise: it is \<open>spec_merge\<close>. In particular \<open>[[10,30],[20,40]]\<close> merges to
  \<open>[[10,40]]\<close>, \<open>[[0,5],[7,10]]\<close> stays as it is, and \<open>[[0,5],[6,10]]\<close> merges to
  \<open>[[0,10]]\<close>.
\<close>

theorem mergeIntervals_algorithm:
  "mergeIntervals xs = spec_merge xs
   \<and> mergeIntervals [\<lparr>start = 10, endp = 30\<rparr>, \<lparr>start = 20, endp = 40\<rparr>] = [\<lparr>start = 10, endp = 40\<rparr>]
   \<and> mergeIntervals [\<lparr>start = 0, endp = 5\<rparr>, \<lparr>start = 7, endp = 10\<rparr>]
       = [\<lparr>start = 0, endp = 5\<rparr>, \<lparr>start = 7, endp = 10\<rparr>]
   \<and> mergeIntervals [\<lparr>start = 0, endp = 5\<rparr>, \<lparr>start = 6, endp = 10\<rparr>] = [\<lparr>start = 0, endp = 10\<rparr>]"
  by (simp add: mergeIntervals_coalesce spec_merge_coalesce)

text \<open>
  C2. For every input whose members satisfy \<open>start \<le> end\<close>, the output of
  \<open>mergeIntervals\<close> is sorted ascending by \<open>start\<close>, and every consecutive pair of
  result intervals satisfies \<open>next.start > current.end + 1\<close>.
\<close>

theorem mergeIntervals_canonical:
  assumes "\<forall>i\<in>set X. start i \<le> endp i"
  shows "sorted (map start (mergeIntervals X))
       \<and> (\<forall>k. Suc k < length (mergeIntervals X)
             \<longrightarrow> start (mergeIntervals X ! Suc k) > endp (mergeIntervals X ! k) + 1)"
  using gapped_nth [OF gapped_coalesce, of _ "sort_key start X"]
  by (simp add: mergeIntervals_sorted) (simp add: mergeIntervals_coalesce)

theorem mergeIntervals_canonical_witness:
  "list_all (\<lambda>i. start i \<le> endp i)
     [\<lparr>start = 20, endp = 40\<rparr>, \<lparr>start = 50, endp = 60\<rparr>, \<lparr>start = 10, endp = 30\<rparr>]
   \<and> mergeIntervals [\<lparr>start = 20, endp = 40\<rparr>, \<lparr>start = 50, endp = 60\<rparr>, \<lparr>start = 10, endp = 30\<rparr>]
       = [\<lparr>start = 10, endp = 40\<rparr>, \<lparr>start = 50, endp = 60\<rparr>]
   \<and> sorted (map start (mergeIntervals
         [\<lparr>start = 20, endp = 40\<rparr>, \<lparr>start = 50, endp = 60\<rparr>, \<lparr>start = 10, endp = 30\<rparr>]))
   \<and> start (mergeIntervals
         [\<lparr>start = 20, endp = 40\<rparr>, \<lparr>start = 50, endp = 60\<rparr>, \<lparr>start = 10, endp = 30\<rparr>] ! Suc 0)
       > endp (mergeIntervals
         [\<lparr>start = 20, endp = 40\<rparr>, \<lparr>start = 50, endp = 60\<rparr>, \<lparr>start = 10, endp = 30\<rparr>] ! 0) + 1"
proof -
  let ?X = "[\<lparr>start = 20, endp = 40\<rparr>, \<lparr>start = 50, endp = 60\<rparr>, \<lparr>start = 10, endp = 30\<rparr>]"
  have h: "\<forall>i\<in>set ?X. start i \<le> endp i" by simp
  have m: "mergeIntervals ?X = [\<lparr>start = 10, endp = 40\<rparr>, \<lparr>start = 50, endp = 60\<rparr>]"
    by (simp add: mergeIntervals_coalesce)
  from mergeIntervals_canonical [OF h] have
    "sorted (map start (mergeIntervals ?X))"
    "Suc 0 < length (mergeIntervals ?X) \<longrightarrow> start (mergeIntervals ?X ! Suc 0) > endp (mergeIntervals ?X ! 0) + 1"
    by blast+
  with h m show ?thesis by (simp add: list_all_iff)
qed

text \<open>
  C3. \<open>mergeIntervals\<close> is idempotent: merging a merged list gives the same list of
  \<open>start\<close>/\<open>end\<close> pairs, for every interval list.
\<close>

theorem mergeIntervals_idempotent:
  "mergeIntervals (mergeIntervals X) = mergeIntervals X"
  using mergeIntervals_append_merged [of "[]" X] by simp

text \<open>
  C4. Order independence. The comparator orders by \<open>start\<close> only and the sort is
  stable, so intervals with equal \<open>start\<close> are processed in input order. When every
  member satisfies \<open>start \<le> end + 1\<close> (in particular for every list of valid
  intervals, \<open>start \<le> end\<close>), any permutation \<open>Y\<close> of \<open>X\<close> merges to the same list.
\<close>

theorem mergeIntervals_permutation:
  assumes "\<forall>i\<in>set X. start i \<le> endp i + 1" and "mset Y = mset X"
  shows "mergeIntervals Y = mergeIntervals X"
  using assms mergeIntervals_mset [of X Y] by simp

theorem mergeIntervals_permutation_witness:
  "list_all (\<lambda>i. start i \<le> endp i + 1)
     [\<lparr>start = 5, endp = 10\<rparr>, \<lparr>start = 5, endp = 7\<rparr>, \<lparr>start = 0, endp = 2\<rparr>]
   \<and> mset [\<lparr>start = 5, endp = 7\<rparr>, \<lparr>start = 0, endp = 2\<rparr>, \<lparr>start = 5, endp = 10\<rparr>]
       = mset [\<lparr>start = 5, endp = 10\<rparr>, \<lparr>start = 5, endp = 7\<rparr>, \<lparr>start = 0, endp = 2\<rparr>]
   \<and> mergeIntervals [\<lparr>start = 5, endp = 7\<rparr>, \<lparr>start = 0, endp = 2\<rparr>, \<lparr>start = 5, endp = 10\<rparr>]
       = mergeIntervals [\<lparr>start = 5, endp = 10\<rparr>, \<lparr>start = 5, endp = 7\<rparr>, \<lparr>start = 0, endp = 2\<rparr>]"
proof -
  let ?X = "[\<lparr>start = 5, endp = 10\<rparr>, \<lparr>start = 5, endp = 7\<rparr>, \<lparr>start = 0, endp = 2\<rparr>]"
  let ?Y = "[\<lparr>start = 5, endp = 7\<rparr>, \<lparr>start = 0, endp = 2\<rparr>, \<lparr>start = 5, endp = 10\<rparr>]"
  have h: "\<forall>i\<in>set ?X. start i \<le> endp i + 1" by simp
  have p: "mset ?Y = mset ?X" by (simp add: add.commute)
  from h p mergeIntervals_permutation [OF h p] show ?thesis by (simp only: list_all_iff)
qed

text \<open>
  Without that condition the result depends on the input order: \<open>[5,3]\<close> and \<open>[5,10]\<close>
  stay apart when \<open>[5,3]\<close> comes first, and \<open>[5,3]\<close> is absorbed when it comes second.
\<close>

theorem mergeIntervals_permutation_counterexample:
  "mset [\<lparr>start = 5, endp = 10\<rparr>, \<lparr>start = 5, endp = 3\<rparr>]
     = mset [\<lparr>start = 5, endp = 3\<rparr>, \<lparr>start = 5, endp = 10\<rparr>]
   \<and> mergeIntervals [\<lparr>start = 5, endp = 3\<rparr>, \<lparr>start = 5, endp = 10\<rparr>]
       = [\<lparr>start = 5, endp = 3\<rparr>, \<lparr>start = 5, endp = 10\<rparr>]
   \<and> mergeIntervals [\<lparr>start = 5, endp = 10\<rparr>, \<lparr>start = 5, endp = 3\<rparr>] = [\<lparr>start = 5, endp = 10\<rparr>]"
  by (simp add: mergeIntervals_coalesce)

text \<open>
  C5. \<open>mergeIntervals\<close> is associative under union: for all interval lists \<open>A\<close> and
  \<open>B\<close>, merging \<open>A\<close> together with the merged \<open>B\<close> gives the same list as merging
  \<open>A\<close> together with \<open>B\<close>.
\<close>

theorem mergeIntervals_union:
  "mergeIntervals (A @ mergeIntervals B) = mergeIntervals (A @ B)"
  by (rule mergeIntervals_append_merged)

lemma absorb_covers:
  "sorted (map start (l # cs)) \<Longrightarrow>
   \<forall>i\<in>set (l # cs). \<exists>out\<in>set (absorb l cs). start out \<le> start i \<and> endp i \<le> endp out"
proof (induction cs arbitrary: l)
  case Nil
  show ?case by simp
next
  case (Cons c cs)
  show ?case
  proof (cases "start c \<le> endp l + 1")
    case True
    let ?l = "l\<lparr>endp := max (endp l) (endp c)\<rparr>"
    from Cons.prems have "sorted (map start (?l # cs))" by simp
    from Cons.IH [OF this]
    have ih: "\<forall>i\<in>set (?l # cs). \<exists>out\<in>set (absorb ?l cs). start out \<le> start i \<and> endp i \<le> endp out" .
    then obtain out where out: "out \<in> set (absorb ?l cs)" "start out \<le> start l"
      "max (endp l) (endp c) \<le> endp out" by auto
    from Cons.prems have "start l \<le> start c" by simp
    with out have "\<exists>out\<in>set (absorb ?l cs). start out \<le> start l \<and> endp l \<le> endp out"
      and "\<exists>out\<in>set (absorb ?l cs). start out \<le> start c \<and> endp c \<le> endp out"
      by (auto intro!: bexI [of _ out])
    with ih True show ?thesis by auto
  next
    case False
    from Cons.prems have "sorted (map start (c # cs))" by simp
    from Cons.IH [OF this] False show ?thesis by auto
  qed
qed

lemma absorb_keeps_unreached:
  "sorted (map start (l # cs)) \<Longrightarrow> i \<in> set (l # cs) \<Longrightarrow>
   \<forall>j\<in>set (l # cs). endp j + 1 < start i \<Longrightarrow> i \<in> set (absorb l cs)"
proof (induction cs arbitrary: l)
  case Nil
  then show ?case by simp
next
  case (Cons c cs)
  show ?case
  proof (cases "start c \<le> endp l + 1")
    case True
    let ?l = "l\<lparr>endp := max (endp l) (endp c)\<rparr>"
    from Cons.prems have s: "sorted (map start (?l # cs))" by simp
    from Cons.prems have lc: "start l \<le> start c" "endp l + 1 < start i" by simp_all
    with True have "i \<noteq> l" "i \<noteq> c" by auto
    with Cons.prems(2) have "i \<in> set (?l # cs)" by simp
    moreover from Cons.prems(3) have "\<forall>j\<in>set (?l # cs). endp j + 1 < start i" by auto
    ultimately have "i \<in> set (absorb ?l cs)" using Cons.IH [OF s] by blast
    with True show ?thesis by simp
  next
    case False
    from Cons.prems have s: "sorted (map start (c # cs))" by simp
    show ?thesis
    proof (cases "i = l")
      case True
      with False show ?thesis by simp
    next
      case False
      with Cons.prems have "i \<in> set (c # cs)" "\<forall>j\<in>set (c # cs). endp j + 1 < start i" by simp_all
      with Cons.IH [OF s] have "i \<in> set (absorb c cs)" by blast
      with \<open>\<not> start c \<le> endp l + 1\<close> show ?thesis by simp
    qed
  qed
qed

lemma coalesce_covers:
  "sorted (map start S) \<Longrightarrow>
   \<forall>i\<in>set S. \<exists>out\<in>set (coalesce S). start out \<le> start i \<and> endp i \<le> endp out"
  using absorb_covers by (cases S) simp_all

lemma coalesce_keeps_unreached:
  "sorted (map start S) \<Longrightarrow> i \<in> set S \<Longrightarrow> \<forall>j\<in>set S. endp j + 1 < start i \<Longrightarrow>
   i \<in> set (coalesce S)"
  using absorb_keeps_unreached by (cases S) simp_all

text \<open>
  \<open>mergeIntervals\<close> has no check of \<open>start \<le> end\<close> and no error result: an interval
  with \<open>start > end\<close> is returned as it is, kept as an entry of its own, or absorbed by
  its predecessor.
\<close>

theorem mergeIntervals_no_validation_counterexample:
  "mergeIntervals [\<lparr>start = 5, endp = 3\<rparr>] = [\<lparr>start = 5, endp = 3\<rparr>]
   \<and> mergeIntervals [\<lparr>start = 0, endp = 10\<rparr>, \<lparr>start = 5, endp = 3\<rparr>, \<lparr>start = 20, endp = 15\<rparr>]
       = [\<lparr>start = 0, endp = 10\<rparr>, \<lparr>start = 20, endp = 15\<rparr>]"
  by (simp add: mergeIntervals_coalesce)

text \<open>
  C7 (as the code has it). \<open>mergeIntervals\<close> rejects nothing, valid or not: every input
  interval lies within some interval of the output (it is kept or absorbed); an input
  interval that starts more than one second after every \<open>end\<close> of the input, its own
  included (so \<open>start > end + 1\<close>), is an entry of the output unchanged; and when every
  input interval satisfies \<open>start \<le> end\<close>, so does every interval of the output.
\<close>

theorem mergeIntervals_rejects_nothing:
  "(\<forall>i\<in>set X. \<exists>out\<in>set (mergeIntervals X). start out \<le> start i \<and> endp i \<le> endp out)
   \<and> (\<forall>i\<in>set X. (\<forall>j\<in>set X. endp j + 1 < start i) \<longrightarrow> i \<in> set (mergeIntervals X))
   \<and> ((\<forall>i\<in>set X. start i \<le> endp i) \<longrightarrow> (\<forall>out\<in>set (mergeIntervals X). start out \<le> endp out))"
proof -
  let ?S = "sort_key start X"
  have s: "sorted (map start ?S)" and e: "set ?S = set X" by simp_all
  from coalesce_covers [OF s] e
  have 1: "\<forall>i\<in>set X. \<exists>out\<in>set (mergeIntervals X). start out \<le> start i \<and> endp i \<le> endp out"
    by (simp add: mergeIntervals_coalesce)
  have 2: "i \<in> set (mergeIntervals X)" if "i \<in> set X" "\<forall>j\<in>set X. endp j + 1 < start i" for i
    using coalesce_keeps_unreached [OF s, of i] that e by (simp add: mergeIntervals_coalesce)
  have 3: "\<forall>out\<in>set (mergeIntervals X). start out \<le> endp out" if "\<forall>i\<in>set X. start i \<le> endp i"
    using that coalesce_valid [of ?S] by (simp add: mergeIntervals_coalesce)
  from 1 2 3 show ?thesis by blast
qed

theorem mergeIntervals_rejects_nothing_witness:
  "\<lparr>start = 5, endp = 3\<rparr> \<in> set [\<lparr>start = 0, endp = 10\<rparr>, \<lparr>start = 5, endp = 3\<rparr>, \<lparr>start = 20, endp = 15\<rparr>]
   \<and> (\<exists>out\<in>set (mergeIntervals
           [\<lparr>start = 0, endp = 10\<rparr>, \<lparr>start = 5, endp = 3\<rparr>, \<lparr>start = 20, endp = 15\<rparr>]).
         start out \<le> 5 \<and> 3 \<le> endp out)
   \<and> list_all (\<lambda>j. endp j + 1 < 20)
         [\<lparr>start = 0, endp = 10\<rparr>, \<lparr>start = 5, endp = 3\<rparr>, \<lparr>start = 20, endp = 15\<rparr>]
   \<and> \<lparr>start = 20, endp = 15\<rparr> \<in> set (mergeIntervals
         [\<lparr>start = 0, endp = 10\<rparr>, \<lparr>start = 5, endp = 3\<rparr>, \<lparr>start = 20, endp = 15\<rparr>])
   \<and> list_all (\<lambda>i. start i \<le> endp i) [\<lparr>start = 20, endp = 40\<rparr>, \<lparr>start = 10, endp = 30\<rparr>]
   \<and> list_all (\<lambda>i. start i \<le> endp i)
         (mergeIntervals [\<lparr>start = 20, endp = 40\<rparr>, \<lparr>start = 10, endp = 30\<rparr>])"
proof -
  let ?X = "[\<lparr>start = 0, endp = 10\<rparr>, \<lparr>start = 5, endp = 3\<rparr>, \<lparr>start = 20, endp = 15\<rparr>]"
  let ?Y = "[\<lparr>start = 20, endp = 40\<rparr>, \<lparr>start = 10, endp = 30\<rparr>]"
  have a: "\<lparr>start = 5, endp = 3\<rparr> \<in> set ?X" and b: "\<lparr>start = 20, endp = 15\<rparr> \<in> set ?X"
    and c: "\<forall>j\<in>set ?X. endp j + 1 < start \<lparr>start = 20, endp = 15\<rparr>"
    and d: "\<forall>i\<in>set ?Y. start i \<le> endp i"
    by simp_all
  from mergeIntervals_rejects_nothing [of ?X] a
  have 1: "\<exists>out\<in>set (mergeIntervals ?X). start out \<le> 5 \<and> 3 \<le> endp out" by fastforce
  from mergeIntervals_rejects_nothing [of ?X] b c
  have 2: "\<lparr>start = 20, endp = 15\<rparr> \<in> set (mergeIntervals ?X)" by blast
  from mergeIntervals_rejects_nothing [of ?Y] d
  have 3: "\<forall>out\<in>set (mergeIntervals ?Y). start out \<le> endp out" by blast
  from a c d 1 2 3 show ?thesis by (simp add: list_all_iff)
qed

section \<open>The progress percentage\<close>

subsection \<open>Rounding\<close>

lemma pow2_of_bitlen:
  assumes "0 < (x::int)"
  shows "2 powi (bitlen x - 1) \<le> (of_int x :: rat)" and "(of_int x :: rat) < 2 powi bitlen x"
proof -
  from assms have b: "1 \<le> bitlen x" by (auto simp: bitlen_alt_def)
  from bitlen_bounds [OF assms]
  have "(of_int (2 ^ nat (bitlen x - 1)) :: rat) \<le> of_int x"
    and "(of_int x :: rat) < of_int (2 ^ nat (bitlen x))"
    by (simp_all only: of_int_le_iff of_int_less_iff)
  with b show "2 powi (bitlen x - 1) \<le> (of_int x :: rat)"
    and "(of_int x :: rat) < 2 powi bitlen x"
    by (simp_all add: power_int_def)
qed

lemma ilog2_bounds:
  assumes "0 < a"
  shows "2 powi ilog2 a \<le> a" and "a < 2 powi (ilog2 a + 1)"
proof -
  obtain p q where pq: "quotient_of a = (p, q)" by (cases "quotient_of a")
  then have q: "0 < q" and a: "a = of_int p / of_int q"
    by (rule quotient_of_denom_pos, rule quotient_of_div)
  with assms have p: "0 < p" by (simp add: zero_less_divide_iff)
  let ?d = "bitlen p - bitlen q"
  note bp = pow2_of_bitlen [OF p] and bq = pow2_of_bitlen [OF q]
  have q': "(0::rat) < of_int q" using q by simp
  have up: "a < 2 powi (?d + 1)"
  proof -
    have "a < 2 powi bitlen p / of_int q"
      unfolding a using bp(2) q' by (simp add: divide_strict_right_mono)
    also have "\<dots> \<le> 2 powi bitlen p / 2 powi (bitlen q - 1)"
      using bq(1) q' by (intro divide_left_mono) simp_all
    also have "\<dots> = 2 powi (bitlen p - (bitlen q - 1))"
      by (simp add: power_int_diff)
    finally show ?thesis by (simp add: algebra_simps)
  qed
  have lo: "2 powi (?d - 1) \<le> a"
  proof -
    have "2 powi (?d - 1) = (2::rat) powi (bitlen p - 1) / 2 powi bitlen q"
      by (simp add: power_int_diff [symmetric] algebra_simps)
    also have "\<dots> \<le> 2 powi (bitlen p - 1) / of_int q"
      using bq(2) q' by (intro divide_left_mono) simp_all
    also have "\<dots> \<le> a"
      unfolding a using bp(1) q' by (simp add: divide_right_mono)
    finally show ?thesis .
  qed
  show "2 powi ilog2 a \<le> a"
    using lo by (simp add: ilog2_def pq Let_def)
  show "a < 2 powi (ilog2 a + 1)"
    using up by (auto simp add: ilog2_def pq Let_def not_le)
qed

lemma ilog2_mono:
  assumes "0 < a" "a \<le> b"
  shows "ilog2 a \<le> ilog2 b"
proof (rule ccontr)
  assume "\<not> ilog2 a \<le> ilog2 b"
  then have "ilog2 b + 1 \<le> ilog2 a" by simp
  then have "(2::rat) powi (ilog2 b + 1) \<le> 2 powi ilog2 a"
    by (intro power_int_increasing) simp_all
  with ilog2_bounds(1) [OF assms(1)] ilog2_bounds(2) [of b] assms show False by simp
qed

lemma round_half_even_ge: "of_int n \<le> m \<Longrightarrow> n \<le> round_half_even m"
proof -
  assume "of_int n \<le> m"
  then have "n \<le> \<lfloor>m\<rfloor>" by (simp add: le_floor_iff)
  then show ?thesis by (simp add: round_half_even_def Let_def)
qed

lemma round_half_even_le: "m \<le> of_int n \<Longrightarrow> round_half_even m \<le> n"
proof -
  assume m: "m \<le> of_int n"
  then have f: "\<lfloor>m\<rfloor> \<le> n" by (simp add: floor_le_iff) 
  show ?thesis
  proof (cases "\<lfloor>m\<rfloor> = n")
    case True
    with m have "m - of_int \<lfloor>m\<rfloor> \<le> 0" by simp
    then have "m - of_int \<lfloor>m\<rfloor> < 1 / 2" by simp
    with True show ?thesis by (simp add: round_half_even_def Let_def)
  next
    case False
    with f have "\<lfloor>m\<rfloor> + 1 \<le> n" by simp
    then show ?thesis by (simp add: round_half_even_def Let_def)
  qed
qed

lemma round_half_even_mono:
  assumes "m \<le> m'"
  shows "round_half_even m \<le> round_half_even m'"
proof (cases "\<lfloor>m\<rfloor> = \<lfloor>m'\<rfloor>")
  case True
  with assms have "m - of_int \<lfloor>m\<rfloor> \<le> m' - of_int \<lfloor>m'\<rfloor>" by simp
  with True show ?thesis by (auto simp add: round_half_even_def Let_def)
next
  case False
  with assms have "\<lfloor>m\<rfloor> + 1 \<le> \<lfloor>m'\<rfloor>" using floor_mono [OF assms] by simp
  moreover have "round_half_even m \<le> \<lfloor>m\<rfloor> + 1" by (simp add: round_half_even_def Let_def)
  moreover have "\<lfloor>m'\<rfloor> \<le> round_half_even m'" by (simp add: round_half_even_def Let_def)
  ultimately show ?thesis by simp
qed

lemma nearest_double_nonneg: "0 \<le> a \<Longrightarrow> 0 \<le> nearest_double a"
proof -
  assume "0 \<le> a"
  then have "of_int 0 \<le> a / 2 powi (max (ilog2 a) (- 1022) - 52)" by simp
  then have "0 \<le> round_half_even (a / 2 powi (max (ilog2 a) (- 1022) - 52))"
    by (rule round_half_even_ge)
  then show ?thesis by (simp add: nearest_double_def Let_def)
qed

lemma nearest_double_mono:
  assumes "0 < a" "a \<le> b"
  shows "nearest_double a \<le> nearest_double b"
proof -
  let ?ea = "max (ilog2 a) (- 1022)" and ?eb = "max (ilog2 b) (- 1022)"
  from assms have b: "0 < b" by simp
  have le: "?ea \<le> ?eb" using ilog2_mono [OF assms] by simp
  have na: "nearest_double a = of_int (round_half_even (a / 2 powi (?ea - 52))) * 2 powi (?ea - 52)"
    and nb: "nearest_double b = of_int (round_half_even (b / 2 powi (?eb - 52))) * 2 powi (?eb - 52)"
    by (simp_all add: nearest_double_def Let_def)
  show ?thesis
  proof (cases "?ea = ?eb")
    case True
    from assms have "a / 2 powi (?eb - 52) \<le> b / 2 powi (?eb - 52)"
      by (simp add: divide_right_mono)
    then have "round_half_even (a / 2 powi (?eb - 52)) \<le> round_half_even (b / 2 powi (?eb - 52))"
      by (rule round_half_even_mono)
    then show ?thesis unfolding na nb True
      by (intro mult_right_mono) simp_all
  next
    case False
    with le have lt: "?ea + 1 \<le> ?eb" by simp
    then have eb: "?eb = ilog2 b" by simp
    have "a < 2 powi (ilog2 a + 1)" by (rule ilog2_bounds [OF assms(1)])
    also have "\<dots> \<le> 2 powi (?ea + 1)" by (intro power_int_increasing) simp_all
    finally have "a / 2 powi (?ea - 52) \<le> 2 powi (?ea + 1) / 2 powi (?ea - 52)"
      by (intro divide_right_mono) simp_all
    also have "\<dots> = of_int (2 ^ 53)"
      by (simp add: power_int_diff [symmetric])
    finally have "round_half_even (a / 2 powi (?ea - 52)) \<le> 2 ^ 53"
      by (rule round_half_even_le)
    then have "(of_int (round_half_even (a / 2 powi (?ea - 52))) :: rat) \<le> of_int (2 ^ 53)"
      by (simp only: of_int_le_iff)
    then have "nearest_double a \<le> of_int (2 ^ 53) * 2 powi (?ea - 52)"
      unfolding na by (intro mult_right_mono) simp_all
    also have "\<dots> = 2 powi 53 * 2 powi (?ea - 52)" by simp
    also have "\<dots> = 2 powi (?ea + 1)"
      by (simp add: power_int_add [symmetric] add.commute del: power_int_numeral)
    also have "\<dots> \<le> 2 powi ?eb" using lt by (intro power_int_increasing) simp_all
    finally have 1: "nearest_double a \<le> 2 powi ?eb" .
    have "2 powi ?eb \<le> b" unfolding eb by (rule ilog2_bounds [OF b])
    then have "2 powi ?eb / 2 powi (?eb - 52) \<le> b / 2 powi (?eb - 52)"
      by (intro divide_right_mono) simp_all
    moreover have "2 powi ?eb / 2 powi (?eb - 52) = (of_int (2 ^ 52) :: rat)"
      by (simp add: power_int_diff [symmetric])
    ultimately have "of_int (2 ^ 52) \<le> b / 2 powi (?eb - 52)" by simp
    then have "2 ^ 52 \<le> round_half_even (b / 2 powi (?eb - 52))"
      by (rule round_half_even_ge)
    then have "(of_int (2 ^ 52) :: rat) \<le> of_int (round_half_even (b / 2 powi (?eb - 52)))"
      by (simp only: of_int_le_iff)
    then have "of_int (2 ^ 52) * 2 powi (?eb - 52) \<le> nearest_double b"
      unfolding nb by (intro mult_right_mono) simp_all
    moreover have "of_int (2 ^ 52) * 2 powi (?eb - 52) = (2::rat) powi 52 * 2 powi (?eb - 52)" by simp
    moreover have "(2::rat) powi 52 * 2 powi (?eb - 52) = 2 powi ?eb"
      by (simp add: power_int_add [symmetric] del: power_int_numeral)
    ultimately have 2: "2 powi ?eb \<le> nearest_double b" by simp
    from 1 2 show ?thesis by simp
  qed
qed


lemma round_double_1: "round_double 1 = Finite 1"
  by code_simp

lemma round_double_100: "round_double 100 = Finite 100"
  by code_simp

lemma round_double_above_1: "round_double (1 + 1 / 2 ^ 52) = Finite (1 + 1 / 2 ^ 52)"
  by code_simp

lemma round_double_above_100: "round_double (100 + 1 / 2 ^ 46) = Finite (100 + 1 / 2 ^ 46)"
  by code_simp

lemma round_double_small: "round_double (1 / 2 ^ 53) = Finite (1 / 2 ^ 53)"
  by code_simp

lemma round_double_small_100: "round_double (1 / 2 ^ 47) = Finite (1 / 2 ^ 47)"
  by code_simp

lemma ilog2_zero: "ilog2 0 = - 2"
  by code_simp

lemma round_double_fixed:
  assumes "0 < g" "round_double g = Finite g"
  shows "nearest_double g = g" and "ilog2 g < 1024"
  using assms by (auto simp add: round_double_def Let_def split: if_splits)

lemma round_double_upper:
  assumes "0 \<le> x" "x \<le> g" "round_double g = Finite g"
  shows "\<exists>p. round_double x = Finite p \<and> 0 \<le> p \<and> p \<le> g"
proof (cases "x = 0")
  case True
  with assms show ?thesis by (simp add: round_double_def)
next
  case False
  with assms have x: "0 < x" and g: "0 < g" by simp_all
  note f = round_double_fixed [OF g assms(3)]
  from nearest_double_mono [OF x assms(2)] f have le: "nearest_double x \<le> g" by simp
  have "ilog2 (nearest_double x) < 1024"
  proof (cases "nearest_double x = 0")
    case True
    then show ?thesis by (simp add: ilog2_zero)
  next
    case False
    with nearest_double_nonneg [of x] x have "0 < nearest_double x" by simp
    from ilog2_mono [OF this le] f(2) show ?thesis by simp
  qed
  with x have "round_double x = Finite (nearest_double x)"
    by (simp add: round_double_def Let_def)
  with le nearest_double_nonneg [of x] x show ?thesis by simp
qed

lemma round_double_lower:
  assumes "0 < g" "g \<le> x" "round_double g = Finite g"
  shows "round_double x = PosInfinity \<or> (\<exists>p. round_double x = Finite p \<and> g \<le> p)"
proof -
  from assms have x: "0 < x" by simp
  note f = round_double_fixed [OF assms(1,3)]
  from nearest_double_mono [OF assms(1,2)] f have "g \<le> nearest_double x" by simp
  with x show ?thesis by (simp add: round_double_def Let_def)
qed

lemma round_double_minus: "round_double (- x) = js_negate (round_double x)"
  by (simp add: round_double_def js_negate_def Let_def)

subsection \<open>The percentage\<close>

lemma calculateUniqueWatchedTime_foldl:
  "foldl (\<lambda>total interval. total + (endp interval - start interval + 1)) a xs
     = a + (\<Sum>i\<leftarrow>xs. endp i - start i + 1)"
  by (induction xs arbitrary: a) simp_all

lemma calculateUniqueWatchedTime_sum:
  "calculateUniqueWatchedTime xs = spec_uniqueSeconds xs"
  by (simp add: calculateUniqueWatchedTime_def spec_uniqueSeconds_def calculateUniqueWatchedTime_foldl)

lemma percentage_of_quotient:
  "dur \<noteq> 0 \<Longrightarrow> calculateProgressPercentage xs dur
     = js_times_100 (round_double (of_int (calculateUniqueWatchedTime xs) / of_int dur))"
  by (simp add: calculateProgressPercentage_def js_divide_def)

lemma percentage_in_range:
  assumes "0 < dur" "0 \<le> u" "u \<le> dur"
  shows "\<exists>p. js_times_100 (round_double (of_int u / of_int dur)) = Finite p \<and> 0 \<le> p \<and> p \<le> 100"
proof -
  from assms have "0 \<le> (of_int u / of_int dur :: rat)" "(of_int u / of_int dur :: rat) \<le> 1"
    by (simp_all add: divide_le_eq)
  from round_double_upper [OF this round_double_1]
  obtain q where q: "round_double (of_int u / of_int dur) = Finite q" "0 \<le> q" "q \<le> 1" by blast
  then have "0 \<le> q * 100" "q * 100 \<le> 100" by simp_all
  from round_double_upper [OF this round_double_100] q(1) show ?thesis
    by (simp add: js_times_100_def)
qed

lemma percentage_full:
  assumes "0 < dur"
  shows "js_times_100 (round_double (of_int dur / of_int dur)) = Finite 100"
  using assms by (simp add: js_times_100_def round_double_1 round_double_100)

lemma percentage_above:
  assumes "0 < dur" "dur \<le> 2 ^ 52" "dur < u"
  shows "js_times_100 (round_double (of_int u / of_int dur)) = PosInfinity
       \<or> (\<exists>p. js_times_100 (round_double (of_int u / of_int dur)) = Finite p \<and> 100 < p)"
proof -
  from assms have d: "(0::rat) < of_int dur" "(of_int dur :: rat) \<le> 2 ^ 52" by simp_all
  from assms have "dur + 1 \<le> u" by simp
  then have "(of_int (dur + 1) :: rat) \<le> of_int u" by (simp only: of_int_le_iff)
  with d have "of_int (dur + 1) / of_int dur \<le> (of_int u / of_int dur :: rat)"
    by (intro divide_right_mono) simp_all
  moreover from d have "(of_int (dur + 1) / of_int dur :: rat) = 1 + 1 / of_int dur"
    by (simp add: add_divide_distrib)
  ultimately have a: "1 + 1 / of_int dur \<le> (of_int u / of_int dur :: rat)" by simp
  from d have "1 / 2 ^ 52 \<le> (1 / of_int dur :: rat)"
    by (intro divide_left_mono) simp_all
  then have b: "1 + 1 / 2 ^ 52 \<le> (1 + 1 / of_int dur :: rat)" by (simp only: add_le_cancel_left)
  from b a have g: "1 + 1 / 2 ^ 52 \<le> (of_int u / of_int dur :: rat)" by (rule order_trans)
  have "(0::rat) < 1 + 1 / 2 ^ 52" by simp
  from round_double_lower [OF this g round_double_above_1]
  show ?thesis
  proof
    assume "round_double (of_int u / of_int dur) = PosInfinity"
    then show ?thesis by (simp add: js_times_100_def)
  next
    assume "\<exists>p. round_double (of_int u / of_int dur) = Finite p \<and> 1 + 1 / 2 ^ 52 \<le> p"
    then obtain q where q: "round_double (of_int u / of_int dur) = Finite q" "1 + 1 / 2 ^ 52 \<le> q"
      by blast
    then have "100 + 1 / 2 ^ 46 \<le> q * 100" by simp
    moreover have "(0::rat) < 100 + 1 / 2 ^ 46" by simp
    ultimately have "round_double (q * 100) = PosInfinity
        \<or> (\<exists>p. round_double (q * 100) = Finite p \<and> 100 + 1 / 2 ^ 46 \<le> p)"
      using round_double_above_100 by (intro round_double_lower)
    moreover have "100 < p" if "100 + 1 / 2 ^ 46 \<le> p" for p :: rat
      using that by simp
    ultimately show ?thesis using q(1) by (auto simp add: js_times_100_def)
  qed
qed

lemma percentage_negative:
  assumes "dur < 0" "- (2 ^ 53) \<le> dur" "0 < u"
  shows "js_times_100 (round_double (of_int u / of_int dur)) = NegInfinity
       \<or> (\<exists>p. js_times_100 (round_double (of_int u / of_int dur)) = Finite p \<and> p < 0)"
proof -
  let ?q = "of_int u / of_int (- dur) :: rat"
  from assms have d: "(0::rat) < of_int (- dur)" "(of_int (- dur) :: rat) \<le> 2 ^ 53" by simp_all
  from assms have "1 \<le> u" by simp
  then have "(1::rat) \<le> of_int u" by simp
  with d have a: "1 / of_int (- dur) \<le> ?q" by (intro divide_right_mono) simp_all
  from d have b: "1 / 2 ^ 53 \<le> (1 / of_int (- dur) :: rat)"
    by (intro divide_left_mono) simp_all
  from b a have g: "1 / 2 ^ 53 \<le> ?q" by (rule order_trans)
  have n: "round_double (of_int u / of_int dur) = js_negate (round_double ?q)"
    using round_double_minus [of ?q] by simp
  have "(0::rat) < 1 / 2 ^ 53" by simp
  from round_double_lower [OF this g round_double_small]
  show ?thesis
  proof
    assume "round_double ?q = PosInfinity"
    with n show ?thesis by (simp add: js_times_100_def js_negate_def)
  next
    assume "\<exists>p. round_double ?q = Finite p \<and> 1 / 2 ^ 53 \<le> p"
    then obtain q where q: "round_double ?q = Finite q" "1 / 2 ^ 53 \<le> q" by blast
    then have "1 / 2 ^ 47 \<le> q * 100" by simp
    moreover have "(0::rat) < 1 / 2 ^ 47" by simp
    ultimately have "round_double (q * 100) = PosInfinity
        \<or> (\<exists>p. round_double (q * 100) = Finite p \<and> 1 / 2 ^ 47 \<le> p)"
      using round_double_small_100 by (intro round_double_lower)
    moreover have "- p < 0" if "1 / 2 ^ 47 \<le> p" for p :: rat
    proof -
      have "(0::rat) < 1 / 2 ^ 47" by simp
      with that show ?thesis by simp
    qed
    moreover have "js_times_100 (round_double (of_int u / of_int dur))
        = js_negate (round_double (q * 100))"
      using n q(1) round_double_minus [of "q * 100"] by (simp add: js_times_100_def js_negate_def)
    ultimately show ?thesis by (auto simp add: js_negate_def)
  qed
qed

text \<open>
  \<open>calculateProgressPercentage\<close> neither clamps nor tests the duration: 60 watched seconds
  over a duration of 30 give 200, where the clamped percentage is 100; a duration of 0
  is divided by and gives \<open>Infinity\<close>, and a negative duration gives a negative
  percentage, where the specified percentage is 0.
\<close>

theorem calculateProgressPercentage_unclamped_counterexample:
  "calculateProgressPercentage [\<lparr>start = 0, endp = 59\<rparr>] 30 = Finite 200
   \<and> spec_percentage [\<lparr>start = 0, endp = 59\<rparr>] 30 = 100
   \<and> calculateProgressPercentage [\<lparr>start = 0, endp = 59\<rparr>] 0 = PosInfinity
   \<and> spec_percentage [\<lparr>start = 0, endp = 59\<rparr>] 0 = 0
   \<and> calculateProgressPercentage [\<lparr>start = 0, endp = 59\<rparr>] (- 60) = Finite (- 100)
   \<and> spec_percentage [\<lparr>start = 0, endp = 59\<rparr>] (- 60) = 0"
proof -
  have "calculateProgressPercentage [\<lparr>start = 0, endp = 59\<rparr>] 30 = Finite 200"
    and "calculateProgressPercentage [\<lparr>start = 0, endp = 59\<rparr>] 0 = PosInfinity"
    and "calculateProgressPercentage [\<lparr>start = 0, endp = 59\<rparr>] (- 60) = Finite (- 100)"
    by code_simp+
  then show ?thesis by (simp add: spec_percentage_def spec_uniqueSeconds_def)
qed

text \<open>
  C6 (as the code has it). \<open>uniqueSeconds\<close> is the sum of \<open>end - start + 1\<close> over the
  intervals. The percentage is \<open>(uniqueSeconds / duration) * 100\<close> in double arithmetic,
  each operation rounded, with no clamp and no test of the duration. A duration of 0 is
  divided by and gives \<open>NaN\<close> or an infinity. For a positive duration and
  \<open>0 \<le> uniqueSeconds \<le> duration\<close> the percentage is a finite number within \<open>[0, 100]\<close>,
  and exactly 100 when \<open>uniqueSeconds = duration\<close>, as for \<open>[[0,59]]\<close> and 60; it is above
  100 when \<open>uniqueSeconds > duration\<close> (duration up to \<open>2^52\<close>). For a negative duration
  (down to \<open>- 2^53\<close>) and \<open>uniqueSeconds > 0\<close> it is negative. The rounding shows:
  \<open>[[0,6]]\<close> with a duration of 100 gives \<open>7 + 2^(- 50)\<close>, printed 7.000000000000001.
\<close>

theorem calculateProgressPercentage_unguarded:
  "calculateUniqueWatchedTime xs = (\<Sum>i\<leftarrow>xs. endp i - start i + 1)
   \<and> (dur = 0 \<longrightarrow> calculateProgressPercentage xs dur
         = (if calculateUniqueWatchedTime xs = 0 then NaN
            else if 0 < calculateUniqueWatchedTime xs then PosInfinity else NegInfinity))
   \<and> (dur \<noteq> 0 \<longrightarrow> calculateProgressPercentage xs dur
         = (case round_double (of_int (calculateUniqueWatchedTime xs) / of_int dur) of
              Finite q \<Rightarrow> round_double (q * 100)
            | other \<Rightarrow> other))
   \<and> (0 < dur \<and> 0 \<le> calculateUniqueWatchedTime xs \<and> calculateUniqueWatchedTime xs \<le> dur
        \<longrightarrow> (\<exists>p. calculateProgressPercentage xs dur = Finite p \<and> 0 \<le> p \<and> p \<le> 100))
   \<and> (0 < dur \<and> calculateUniqueWatchedTime xs = dur
        \<longrightarrow> calculateProgressPercentage xs dur = Finite 100)
   \<and> (0 < dur \<and> dur \<le> 2 ^ 52 \<and> dur < calculateUniqueWatchedTime xs
        \<longrightarrow> calculateProgressPercentage xs dur = PosInfinity
          \<or> (\<exists>p. calculateProgressPercentage xs dur = Finite p \<and> 100 < p))
   \<and> (dur < 0 \<and> - (2 ^ 53) \<le> dur \<and> 0 < calculateUniqueWatchedTime xs
        \<longrightarrow> calculateProgressPercentage xs dur = NegInfinity
          \<or> (\<exists>p. calculateProgressPercentage xs dur = Finite p \<and> p < 0))
   \<and> calculateProgressPercentage [\<lparr>start = 0, endp = 59\<rparr>] 60 = Finite 100
   \<and> calculateProgressPercentage [\<lparr>start = 0, endp = 6\<rparr>] 100 = Finite (7 + 1 / 2 ^ 50)"
proof -
  let ?u = "calculateUniqueWatchedTime xs"
  have 1: "?u = (\<Sum>i\<leftarrow>xs. endp i - start i + 1)"
    by (simp add: calculateUniqueWatchedTime_sum spec_uniqueSeconds_def)
  have 2: "calculateProgressPercentage xs dur
      = (if ?u = 0 then NaN else if 0 < ?u then PosInfinity else NegInfinity)" if "dur = 0"
    using that by (simp add: calculateProgressPercentage_def js_divide_def js_times_100_def)
  have 3: "calculateProgressPercentage xs dur
      = (case round_double (of_int ?u / of_int dur) of
           Finite q \<Rightarrow> round_double (q * 100) | other \<Rightarrow> other)" if "dur \<noteq> 0"
    using percentage_of_quotient [OF that] by (simp add: js_times_100_def)
  have 4: "\<exists>p. calculateProgressPercentage xs dur = Finite p \<and> 0 \<le> p \<and> p \<le> 100"
    if "0 < dur" "0 \<le> ?u" "?u \<le> dur"
    using percentage_in_range [OF that] that(1) by (simp add: percentage_of_quotient)
  have 5: "calculateProgressPercentage xs dur = Finite 100" if "0 < dur" "?u = dur"
    using percentage_full [OF that(1)] that by (simp add: percentage_of_quotient)
  have 6: "calculateProgressPercentage xs dur = PosInfinity
      \<or> (\<exists>p. calculateProgressPercentage xs dur = Finite p \<and> 100 < p)"
    if "0 < dur" "dur \<le> 2 ^ 52" "dur < ?u"
    using percentage_above [OF that] that(1) by (simp add: percentage_of_quotient)
  have 7: "calculateProgressPercentage xs dur = NegInfinity
      \<or> (\<exists>p. calculateProgressPercentage xs dur = Finite p \<and> p < 0)"
    if "dur < 0" "- (2 ^ 53) \<le> dur" "0 < ?u"
    using percentage_negative [OF that] that(1) by (simp add: percentage_of_quotient)
  have 8: "calculateProgressPercentage [\<lparr>start = 0, endp = 59\<rparr>] 60 = Finite 100"
    and 9: "calculateProgressPercentage [\<lparr>start = 0, endp = 6\<rparr>] 100 = Finite (7 + 1 / 2 ^ 50)"
    by code_simp+
  from 1 2 3 4 5 6 7 8 9 show ?thesis by blast
qed

theorem calculateProgressPercentage_unguarded_witness:
  "calculateUniqueWatchedTime [\<lparr>start = 0, endp = 29\<rparr>, \<lparr>start = 60, endp = 89\<rparr>] = 60
   \<and> (\<exists>p. calculateProgressPercentage [\<lparr>start = 0, endp = 29\<rparr>, \<lparr>start = 60, endp = 89\<rparr>] 120
          = Finite p \<and> 0 \<le> p \<and> p \<le> 100)
   \<and> calculateProgressPercentage [\<lparr>start = 0, endp = 29\<rparr>, \<lparr>start = 60, endp = 89\<rparr>] 60
       = Finite 100
   \<and> calculateProgressPercentage [\<lparr>start = 0, endp = 29\<rparr>, \<lparr>start = 60, endp = 89\<rparr>] 0
       = PosInfinity
   \<and> (calculateProgressPercentage [\<lparr>start = 0, endp = 29\<rparr>, \<lparr>start = 60, endp = 89\<rparr>] 45
         = PosInfinity
       \<or> (\<exists>p. calculateProgressPercentage [\<lparr>start = 0, endp = 29\<rparr>, \<lparr>start = 60, endp = 89\<rparr>] 45
             = Finite p \<and> 100 < p))
   \<and> (calculateProgressPercentage [\<lparr>start = 0, endp = 29\<rparr>, \<lparr>start = 60, endp = 89\<rparr>] (- 7)
         = NegInfinity
       \<or> (\<exists>p. calculateProgressPercentage [\<lparr>start = 0, endp = 29\<rparr>, \<lparr>start = 60, endp = 89\<rparr>] (- 7)
             = Finite p \<and> p < 0))"
proof -
  let ?X = "[\<lparr>start = 0, endp = 29\<rparr>, \<lparr>start = 60, endp = 89\<rparr>]"
  have u: "calculateUniqueWatchedTime ?X = 60"
    by (simp add: calculateUniqueWatchedTime_def)
  note t = calculateProgressPercentage_unguarded [of ?X, unfolded u]
  note zero = t [THEN conjunct2, THEN conjunct1]
    and inside = t [THEN conjunct2, THEN conjunct2, THEN conjunct2, THEN conjunct1]
    and full = t [THEN conjunct2, THEN conjunct2, THEN conjunct2, THEN conjunct2, THEN conjunct1]
    and above = t [THEN conjunct2, THEN conjunct2, THEN conjunct2, THEN conjunct2, THEN conjunct2,
      THEN conjunct1]
    and below = t [THEN conjunct2, THEN conjunct2, THEN conjunct2, THEN conjunct2, THEN conjunct2,
      THEN conjunct2, THEN conjunct1]
  from inside [of 120]
  have a: "\<exists>p. calculateProgressPercentage ?X 120 = Finite p \<and> 0 \<le> p \<and> p \<le> 100"
    by simp
  from full [of 60] have b: "calculateProgressPercentage ?X 60 = Finite 100" by simp
  from zero [of 0] have c: "calculateProgressPercentage ?X 0 = PosInfinity" by simp
  from above [of 45] have d: "calculateProgressPercentage ?X 45 = PosInfinity
      \<or> (\<exists>p. calculateProgressPercentage ?X 45 = Finite p \<and> 100 < p)" by simp
  from below [of "- 7"] have e: "calculateProgressPercentage ?X (- 7) = NegInfinity
      \<or> (\<exists>p. calculateProgressPercentage ?X (- 7) = Finite p \<and> p < 0)" by simp
  from u a b c d e show ?thesis by blast
qed

section \<open>Resuming\<close>

text \<open>
  The resume effect compares \<open>lastPosition\<close> with 0 only: a stored position of 500 on a
  video of 300 seconds is sought to, where the specification resumes from 0.
\<close>

theorem resumeOnLoad_seek_counterexample:
  "fst (resumeOnLoad False
     \<lparr>player = True, isReady = True, lastPosition = 500, currentTime = 0, duration = 300\<rparr>)
     = [SeekTo 500]
   \<and> spec_resume_target 500 300 = 0"
  by (simp add: resumeOnLoad_def resumeSeekEffect_def resumeSeekTimer_def spec_resume_target_def)

text \<open>
  C8 (as the code has it). The player is asked to seek to exactly \<open>lastPosition\<close> when
  the player instance is set, \<open>isReady\<close> holds and \<open>lastPosition > 0\<close>, whatever the
  duration; otherwise no seek is issued and playback starts from 0. A stored position of
  42 on a video of 300 seconds gives a seek to 42.
\<close>

theorem resumeOnLoad_seek:
  "fst (resumeOnLoad seekThrows v)
     = (if player v \<and> isReady v \<and> 0 < lastPosition v then [SeekTo (lastPosition v)] else [])
   \<and> fst (resumeOnLoad False
        \<lparr>player = True, isReady = True, lastPosition = 42, currentTime = 0, duration = 300\<rparr>)
       = [SeekTo 42]"
  by (simp add: resumeOnLoad_def resumeSeekEffect_def resumeSeekTimer_def)

section \<open>Progress operations\<close>

text \<open>
  C9. While the user is not authenticated, fetching, updating and resetting progress
  issue no request, leave the state as it is, return \<open>null\<close> and do not throw.
\<close>

theorem unauthenticated_noop:
  assumes "\<not> isAuthenticated"
  shows "getVideoProgress isAuthenticated axios videoId st
           = \<lparr>returned = Inr None, state_after = st, requests = []\<rparr>
       \<and> updateProgress isAuthenticated axios videoId payload st
           = \<lparr>returned = Inr None, state_after = st, requests = []\<rparr>
       \<and> resetProgress isAuthenticated axios videoId st
           = \<lparr>returned = Inr None, state_after = st, requests = []\<rparr>"
  using assms by (simp add: getVideoProgress_def updateProgress_def resetProgress_def)

theorem unauthenticated_noop_witness:
  "\<not> False
   \<and> getVideoProgress False (\<lambda>r. Resolved (Some \<lparr>success = True, data = Some (7::nat)\<rparr>)) ''v1''
        \<lparr>videos = [1::nat], currentVideo = None, progress = Some 3, loading = False, error = Some ''e''\<rparr>
       = \<lparr>returned = Inr None,
          state_after = \<lparr>videos = [1], currentVideo = None, progress = Some 3, loading = False, error = Some ''e''\<rparr>,
          requests = ([] :: unit request list)\<rparr>"
  using unauthenticated_noop [of False "\<lambda>r. Resolved (Some \<lparr>success = True, data = Some (7::nat)\<rparr>)" "''v1''"
      "\<lparr>videos = [1::nat], currentVideo = None, progress = Some 3, loading = False, error = Some ''e''\<rparr>"
      "()"]
  by simp

text \<open>
  C10. For an authenticated user each of the three operations issues its request exactly
  once and behaves as \<open>settled\<close>: it never throws; when the request fails or the
  response has no body, no truthy \<open>success\<close> or no truthy \<open>data\<close> (\<open>accepted\<close> is
  \<open>None\<close>) it returns \<open>null\<close> and leaves the state, progress and error included,
  unchanged; when the response is successful and carries data \<open>d\<close> it returns \<open>d\<close>,
  stores \<open>d\<close> as the progress and clears the error.
\<close>

theorem authenticated_progress_call:
  assumes "isAuthenticated"
  shows "getVideoProgress isAuthenticated axios videoId st
           = settled (GET (progress_url videoId)) (axios (GET (progress_url videoId))) st
       \<and> updateProgress isAuthenticated axios videoId payload st
           = settled (POST (progress_url videoId) payload)
               (axios (POST (progress_url videoId) payload)) st
       \<and> resetProgress isAuthenticated axios videoId st
           = settled (DELETE (progress_url videoId)) (axios (DELETE (progress_url videoId))) st
       \<and> (\<exists>v. returned (settled req res st) = Inr v)
       \<and> requests (settled req res st) = [req]
       \<and> length (requests (settled req res st)) \<le> 1
       \<and> (accepted res = None
            \<longrightarrow> returned (settled req res st) = Inr None \<and> state_after (settled req res st) = st)
       \<and> (accepted res = Some d
            \<longrightarrow> returned (settled req res st) = Inr (Some d)
              \<and> state_after (settled req res st) = st\<lparr>progress := Some d, error := None\<rparr>)
       \<and> (accepted res = Some d
            \<longleftrightarrow> (\<exists>b. res = Resolved (Some b) \<and> success b \<and> data b = Some d))"
proof -
  have ops: "getVideoProgress isAuthenticated axios videoId st
           = settled (GET (progress_url videoId)) (axios (GET (progress_url videoId))) st"
    "updateProgress isAuthenticated axios videoId payload st
           = settled (POST (progress_url videoId) payload)
               (axios (POST (progress_url videoId) payload)) st"
    "resetProgress isAuthenticated axios videoId st
           = settled (DELETE (progress_url videoId)) (axios (DELETE (progress_url videoId))) st"
    using assms
    by (simp_all add: getVideoProgress_def updateProgress_def resetProgress_def settled_def
        accepted_def Let_def split: axios_result.split option.split)
  have acc: "accepted res = Some d
      \<longleftrightarrow> (\<exists>b. res = Resolved (Some b) \<and> success b \<and> data b = Some d)"
    by (auto simp: accepted_def split: axios_result.splits option.splits if_splits)
  have gen: "(\<exists>v. returned (settled req res st) = Inr v)
       \<and> requests (settled req res st) = [req]
       \<and> length (requests (settled req res st)) \<le> 1
       \<and> (accepted res = None
            \<longrightarrow> returned (settled req res st) = Inr None \<and> state_after (settled req res st) = st)
       \<and> (accepted res = Some d
            \<longrightarrow> returned (settled req res st) = Inr (Some d)
              \<and> state_after (settled req res st) = st\<lparr>progress := Some d, error := None\<rparr>)"
    by (simp add: settled_def)
  from ops gen acc show ?thesis by blast
qed

theorem authenticated_progress_call_witness:
  "True
   \<and> returned (getVideoProgress True (\<lambda>r. Resolved (Some \<lparr>success = True, data = Some (7::nat)\<rparr>)) ''v1''
        \<lparr>videos = [1::nat], currentVideo = None, progress = Some 3, loading = False, error = Some ''e''\<rparr>
        :: (nat, nat, unit) outcome) = Inr (Some 7)
   \<and> state_after (getVideoProgress True (\<lambda>r. Resolved (Some \<lparr>success = True, data = Some (7::nat)\<rparr>)) ''v1''
        \<lparr>videos = [1::nat], currentVideo = None, progress = Some 3, loading = False, error = Some ''e''\<rparr>
        :: (nat, nat, unit) outcome)
       = \<lparr>videos = [1], currentVideo = None, progress = Some 7, loading = False, error = None\<rparr>
   \<and> returned (resetProgress True (\<lambda>r. Resolved (Some \<lparr>success = False, data = Some (7::nat)\<rparr>)) ''v1''
        \<lparr>videos = [1::nat], currentVideo = None, progress = Some 3, loading = False, error = Some ''e''\<rparr>
        :: (nat, nat, unit) outcome) = Inr None
   \<and> state_after (updateProgress True (\<lambda>r. Rejected) ''v1'' ()
        \<lparr>videos = [1::nat], currentVideo = None, progress = Some (3::nat), loading = False, error = Some ''e''\<rparr>
        :: (nat, nat, unit) outcome)
       = \<lparr>videos = [1], currentVideo = None, progress = Some 3, loading = False, error = Some ''e''\<rparr>"
proof -
  let ?st = "\<lparr>videos = [1::nat], currentVideo = None, progress = Some (3::nat), loading = False,
    error = Some ''e''\<rparr>"
  have h: True by simp
  note a = authenticated_progress_call [OF h, where videoId = "''v1''" and st = ?st]
  note b = a [where payload = "()" and req = "GET []" and res = Rejected and d = 0]
  from b [of "\<lambda>r. Resolved (Some \<lparr>success = True, data = Some (7::nat)\<rparr>)"]
    b [of "\<lambda>r. Resolved (Some \<lparr>success = False, data = Some (7::nat)\<rparr>)"]
    b [of "\<lambda>r. Rejected"]
  show ?thesis by (simp add: settled_def accepted_def)
qed

end
